theory Spec2Isabelle
  imports Main
begin

section \<open>mysqldump_to_csv: a shallow embedding\<close>

text \<open>
  The script reads a MySQL dump line by line, accumulates INSERT statements, extracts a
  fixed set of positional fields from every row-group and writes them as rows of CSV files
  that are rotated every \<open>LINES_PER_FILE\<close> rows.

  Text is a \<^typ>\<open>string\<close>; a \<^typ>\<open>char\<close> stands for a Unicode code point below 256, which
  covers every character the script treats specially (quotes, parentheses, comma, semicolon,
  ASCII digits, white space).  Exceptions are values of type \<open>exn\<close>; an operation that may
  raise returns \<open>exn + 'a\<close>.
\<close>

subsection \<open>Python string primitives\<close>

definition is_space :: "char \<Rightarrow> bool" where
  \<comment> \<open>\<open>str.isspace\<close> / the regular expression class \<open>\s\<close>, for code points below 256\<close>
  "is_space c \<longleftrightarrow> c \<in> set [CHR 0x09, CHR 0x0A, CHR 0x0B, CHR 0x0C, CHR 0x0D,
      CHR 0x1C, CHR 0x1D, CHR 0x1E, CHR 0x1F, CHR 0x20, CHR 0x85, CHR 0xA0]"

definition is_digit :: "char \<Rightarrow> bool" where
  \<comment> \<open>the regular expression class \<open>\d\<close>, for code points below 256\<close>
  "is_digit c \<longleftrightarrow> c \<in> set ''0123456789''"

definition strip :: "string \<Rightarrow> string" where
  \<comment> \<open>\<open>s.strip()\<close>\<close>
  "strip s = rev (dropWhile is_space (rev (dropWhile is_space s)))"

definition rstrip_chars :: "string \<Rightarrow> string \<Rightarrow> string" where
  \<comment> \<open>\<open>s.rstrip(chars)\<close>\<close>
  "rstrip_chars s chars = rev (dropWhile (\<lambda>c. c \<in> set chars) (rev s))"

definition strip_chars :: "string \<Rightarrow> string \<Rightarrow> string" where
  \<comment> \<open>\<open>s.strip(chars)\<close>\<close>
  "strip_chars s chars =
     rev (dropWhile (\<lambda>c. c \<in> set chars) (rev (dropWhile (\<lambda>c. c \<in> set chars) s)))"

definition startswith :: "string \<Rightarrow> string \<Rightarrow> bool" where
  "startswith s p \<longleftrightarrow> take (length p) s = p"

definition endswith :: "string \<Rightarrow> string \<Rightarrow> bool" where
  "endswith s p \<longleftrightarrow> length p \<le> length s \<and> drop (length s - length p) s = p"

fun str_partition :: "string \<Rightarrow> string \<Rightarrow> string \<times> string \<times> string" where
  \<comment> \<open>\<open>s.partition(sep)\<close> for a non-empty \<open>sep\<close>: split at the first occurrence;
      \<open>(s, '', '')\<close> when there is none\<close>
  "str_partition [] sep = ([], [], [])"
| "str_partition (c # cs) sep =
     (if startswith (c # cs) sep then ([], sep, drop (length sep) (c # cs))
      else (case str_partition cs sep of (before, s, after) \<Rightarrow> (c # before, s, after)))"

subsection \<open>The two regular expressions\<close>

text \<open>
  \<open>re.split(r"\),\s*\(", text)\<close>.  The pattern is a close parenthesis, a comma, a greedy run
  of white space and an open parenthesis.  White space never is an open parenthesis, so
  backtracking into the run cannot help: the pattern matches at a position iff the text
  there is \<open>),\<close>, then white space, then \<open>(\<close>.
\<close>

definition sep_match :: "string \<Rightarrow> string option" where
  \<comment> \<open>the text after a match of the separator pattern at the start of \<open>s\<close>\<close>
  "sep_match s =
     (case s of
        c1 # c2 # rest \<Rightarrow>
          if c1 = CHR '')'' \<and> c2 = CHR '','' then
            (case dropWhile is_space rest of
               c3 # rest' \<Rightarrow> if c3 = CHR ''('' then Some rest' else None
             | [] \<Rightarrow> None)
          else None
      | _ \<Rightarrow> None)"

lemma sep_match_shorter: "sep_match s = Some r \<Longrightarrow> length r < length s"
proof -
  assume a: "sep_match s = Some r"
  then obtain c1 c2 rest c3 where s: "s = c1 # c2 # rest"
    and d: "dropWhile is_space rest = c3 # r"
    by (auto simp: sep_match_def split: list.splits if_splits)
  have "length (dropWhile is_space rest) \<le> length rest"
    by (rule length_dropWhile_le)
  with s d show ?thesis by simp
qed

function split_from :: "string \<Rightarrow> string \<Rightarrow> string list" where
  \<comment> \<open>\<open>piece\<close> is the text scanned since the last separator\<close>
  "split_from piece [] = [piece]"
| "split_from piece (c # cs) =
     (case sep_match (c # cs) of
        Some rest \<Rightarrow> piece # split_from [] rest
      | None \<Rightarrow> split_from (piece @ [c]) cs)"
  by pat_completeness auto
termination
  by (relation "measure (\<lambda>(piece, s). length s)") (auto dest: sep_match_shorter)

definition re_split :: "string \<Rightarrow> string list" where
  "re_split s = split_from [] s"

text \<open>
  \<open>re.findall(r"(?:'([^']*)'|NULL|\d+)", row)\<close>.  At every position the alternatives are
  tried in order: a quoted string (a quote, the longest run of non-quotes, a quote), the
  literal \<open>NULL\<close>, a longest run of digits.  Where none matches the scan moves on by one
  character.  The pattern has exactly one capturing group, inside the first alternative, so
  \<open>findall\<close> returns for every match the text of that group, which is the empty string when
  the group took no part in the match.
\<close>

datatype tok = Quoted string | Null | Digits string

fun quoted_body :: "string \<Rightarrow> (string \<times> string) option" where
  \<comment> \<open>after an opening quote: the run of non-quotes and the text after the closing quote\<close>
  "quoted_body [] = None"
| "quoted_body (c # cs) =
     (if c = CHR 0x27 then Some ([], cs)
      else (case quoted_body cs of
              None \<Rightarrow> None
            | Some (g, rest) \<Rightarrow> Some (c # g, rest)))"

definition match_at :: "string \<Rightarrow> (tok \<times> string) option" where
  \<comment> \<open>a match of the token pattern at the start of \<open>s\<close>, and the text after it\<close>
  "match_at s =
     (case s of
        [] \<Rightarrow> None
      | c # cs \<Rightarrow>
          (case (if c = CHR 0x27 then quoted_body cs else None) of
             Some (g, rest) \<Rightarrow> Some (Quoted g, rest)
           | None \<Rightarrow>
               if startswith s ''NULL'' then Some (Null, drop 4 s)
               else if is_digit c then Some (Digits (takeWhile is_digit s), dropWhile is_digit s)
               else None))"

lemma quoted_body_shorter: "quoted_body s = Some (g, r) \<Longrightarrow> length r < length s"
  by (induction s arbitrary: g) (auto split: if_splits option.splits)

lemma match_at_shorter: "match_at s = Some (t, r) \<Longrightarrow> length r < length s"
proof (cases s)
  case Nil
  assume "match_at s = Some (t, r)"
  with Nil show ?thesis by (simp add: match_at_def)
next
  case (Cons c cs)
  assume a: "match_at s = Some (t, r)"
  have dw: "is_digit c \<Longrightarrow> length (dropWhile is_digit (c # cs)) < length (c # cs)"
    using length_dropWhile_le [of is_digit cs] by simp
  from a Cons dw show ?thesis
    by (auto simp: match_at_def split: option.splits if_splits dest: quoted_body_shorter)
qed

function finditer :: "string \<Rightarrow> tok list" where
  "finditer [] = []"
| "finditer (c # cs) =
     (case match_at (c # cs) of
        Some (t, rest) \<Rightarrow> t # finditer rest
      | None \<Rightarrow> finditer cs)"
  by pat_completeness auto
termination
  by (relation "measure length") (auto dest: match_at_shorter)

fun group1 :: "tok \<Rightarrow> string" where
  \<comment> \<open>the text of the capturing group of a match\<close>
  "group1 (Quoted g) = g"
| "group1 Null = []"
| "group1 (Digits d) = []"

definition findall :: "string \<Rightarrow> string list" where
  "findall row = map group1 (finditer row)"


subsection \<open>Configuration\<close>

definition REQUIRED_FIELDS :: "(string \<times> nat) list" where
  \<comment> \<open>the dictionary, in insertion order: field name and position in the SQL data\<close>
  "REQUIRED_FIELDS =
     [(''LOGIN'', 2), (''NAME'', 6), (''LAST_NAME'', 7), (''EMAIL'', 8),
      (''PERSONAL_BIRTHDATE'', 16), (''TIMESTAMP_X'', 1), (''PERSONAL_PHONE'', 18),
      (''PERSONAL_MOBILE'', 20), (''PERSONAL_MAILBOX'', 23), (''PERSONAL_CITY'', 24),
      (''PERSONAL_STATE'', 25), (''WORK_CITY'', 37), (''PASSWORD'', 3), (''CHECKWORD'', 4)]"

definition LINES_PER_FILE :: nat where
  "LINES_PER_FILE = 10000"

definition header :: "string list" where
  \<comment> \<open>\<open>REQUIRED_FIELDS.keys()\<close>\<close>
  "header = map fst REQUIRED_FIELDS"

subsection \<open>Statement text to rows\<close>

definition is_insert :: "string \<Rightarrow> bool" where
  "is_insert line \<longleftrightarrow> startswith (strip line) ''INSERT INTO''"

definition get_values :: "string \<Rightarrow> string" where
  "get_values statement =
     (case str_partition statement '' VALUES '' of
        (before, sep, values) \<Rightarrow> rstrip_chars (strip values) '';'')"

datatype exn = KeyboardInterrupt | Exception string
  \<comment> \<open>\<open>Exception m\<close>: an instance of a subclass of \<open>Exception\<close> whose text is \<open>m\<close>\<close>

definition py_index :: "'a list \<Rightarrow> nat \<Rightarrow> exn + 'a" where
  \<comment> \<open>\<open>xs[i]\<close> for a non-negative \<open>i\<close>\<close>
  "py_index xs i =
     (if i < length xs then Inr (xs ! i) else Inl (Exception ''list index out of range''))"

definition field_value :: "string list \<Rightarrow> nat \<Rightarrow> exn + string" where
  \<comment> \<open>\<open>columns[index] if index < len(columns) and columns[index] != "NULL" else ""\<close>\<close>
  "field_value columns index =
     (if index < length columns then
        (case py_index columns index of
           Inl e \<Rightarrow> Inl e
         | Inr c \<Rightarrow> if c \<noteq> ''NULL'' then py_index columns index else Inr [])
      else Inr [])"

fun result_row :: "(string \<times> nat) list \<Rightarrow> string list \<Rightarrow> exn + string list" where
  \<comment> \<open>the list comprehension over the items of the field dictionary\<close>
  "result_row [] columns = Inr []"
| "result_row ((field, index) # fields) columns =
     (case field_value columns index of
        Inl e \<Rightarrow> Inl e
      | Inr v \<Rightarrow>
          (case result_row fields columns of
             Inl e \<Rightarrow> Inl e
           | Inr vs \<Rightarrow> Inr (v # vs)))"

subsection \<open>State and output operations\<close>

text \<open>
  \<open>files\<close> holds the rows of the output files created so far, in the order of their
  creation (the \<open>k\<close>-th one is \<open>apteka_k.csv\<close>, as \<open>file_count\<close> grows by one before every
  further \<open>open\<close>); the writer is bound to the last one.  \<open>stderr\<close> holds the messages
  printed to the error stream.  \<open>faults\<close> is the environment, the failures of
  the output operations to come: \<open>(n, e)\<close> stands for \<open>n\<close> operations that succeed and one
  that raises \<open>e\<close>; with \<open>[]\<close> no operation fails.

  Two fields are observations, not program state.  \<open>row_starts\<close> is the value of the row
  counter at the start of every row-group processed so far.  \<open>calls\<close> is the sequence of
  the output calls that succeeded so far, each named by its place in the source: every
  \<open>open\<close> adds a file and an \<open>Open_call\<close>, every \<open>writerow\<close> adds one row to the last file
  and the name of the call.
\<close>

datatype output_call =
    Open_call    \<comment> \<open>\<open>open(...)\<close> with \<open>csv.writer(...)\<close>, lines 87-88, 98-99 and 109-110\<close>
  | Header_call  \<comment> \<open>\<open>writer.writerow(REQUIRED_FIELDS.keys())\<close>, lines 89, 100 and 111\<close>
  | Row_call     \<comment> \<open>\<open>writer.writerow(result_row)\<close>, line 60\<close>

record state =
  buffer :: string
  file_count :: nat
  line_counter :: nat
  files :: "string list list list"
  stderr :: "string list"
  faults :: "(nat \<times> exn) list"
  row_starts :: "nat list"
  calls :: "output_call list"

type_synonym 'a result = "(exn + 'a) \<times> state"

definition bind :: "'a result \<Rightarrow> ('a \<Rightarrow> state \<Rightarrow> 'b result) \<Rightarrow> 'b result" where
  \<comment> \<open>sequencing: an exception ends the sequence\<close>
  "bind r f = (case r of (Inl e, st) \<Rightarrow> (Inl e, st) | (Inr x, st) \<Rightarrow> f x st)"

definition output_op :: "(state \<Rightarrow> state) \<Rightarrow> state \<Rightarrow> unit result" where
  "output_op f st =
     (case faults st of
        [] \<Rightarrow> (Inr (), f st)
      | (0, e) # fs \<Rightarrow> (Inl e, st\<lparr>faults := fs\<rparr>)
      | (Suc n, e) # fs \<Rightarrow> (Inr (), f (st\<lparr>faults := (n, e) # fs\<rparr>)))"

fun append_row :: "string list \<Rightarrow> string list list list \<Rightarrow> string list list list" where
  \<comment> \<open>a row goes to the end of the last file\<close>
  "append_row row [] = []"
| "append_row row [f] = [f @ [row]]"
| "append_row row (f # g # fs) = f # append_row row (g # fs)"

definition writerow :: "output_call \<Rightarrow> string list \<Rightarrow> state \<Rightarrow> unit result" where
  \<comment> \<open>\<open>writer.writerow(row)\<close>; \<open>c\<close> names the call, for the observation\<close>
  "writerow c row =
     output_op (\<lambda>st. st\<lparr>files := append_row row (files st), calls := calls st @ [c]\<rparr>)"

definition open_file :: "state \<Rightarrow> unit result" where
  \<comment> \<open>\<open>open(f"apteka_{file_count}.csv", "w", ...)\<close> and the writer made for it\<close>
  "open_file =
     output_op (\<lambda>st. st\<lparr>files := files st @ [[]], calls := calls st @ [Open_call]\<rparr>)"

definition close_file :: "state \<Rightarrow> unit result" where
  "close_file = output_op (\<lambda>st. st)"

definition print_err :: "string \<Rightarrow> state \<Rightarrow> state" where
  "print_err msg st = st\<lparr>stderr := stderr st @ [msg]\<rparr>"

subsection \<open>parse_values and process_insert\<close>

fun parse_rows :: "string list \<Rightarrow> state \<Rightarrow> bool result" where
  \<comment> \<open>the \<open>for row in rows\<close> loop of \<open>parse_values\<close>\<close>
  "parse_rows [] st = (Inr False, st)"
| "parse_rows (row # rows) st =
     (let st0 = st\<lparr>row_starts := row_starts st @ [line_counter st]\<rparr>;
          columns = findall row
      in case result_row REQUIRED_FIELDS columns of
           Inl e \<Rightarrow> (Inl e, st0)
         | Inr result \<Rightarrow>
             (case writerow Row_call result st0 of
                (Inl e, st1) \<Rightarrow> (Inl e, st1)
              | (Inr u, st1) \<Rightarrow>
                  (let st2 = st1\<lparr>line_counter := line_counter st1 + 1\<rparr>
                   in if line_counter st2 \<ge> LINES_PER_FILE
                      then (Inr True, st2\<lparr>line_counter := 0\<rparr>)
                      else parse_rows rows st2)))"

definition parse_values :: "string \<Rightarrow> state \<Rightarrow> bool result" where
  "parse_values values st = parse_rows (re_split (strip_chars values ''()'')) st"

definition process_insert :: "string \<Rightarrow> state \<Rightarrow> bool result" where
  \<comment> \<open>\<open>except Exception\<close> does not catch \<open>KeyboardInterrupt\<close>\<close>
  "process_insert statement st =
     (case parse_values (get_values statement) st of
        (Inr switch, st') \<Rightarrow> (Inr switch, st')
      | (Inl (Exception m), st') \<Rightarrow>
          (Inr False, print_err (''Error processing statement: '' @ m) st')
      | (Inl KeyboardInterrupt, st') \<Rightarrow> (Inl KeyboardInterrupt, st'))"

subsection \<open>main\<close>

definition switch_file :: "state \<Rightarrow> unit result" where
  \<comment> \<open>the block run when \<open>process_insert\<close> returns \<open>True\<close>: close, count, open, header\<close>
  "switch_file st =
     bind (close_file st) (\<lambda>u st1.
     bind (open_file (st1\<lparr>file_count := file_count st1 + 1\<rparr>)) (\<lambda>u st2.
     writerow Header_call header st2))"

definition flush :: "state \<Rightarrow> unit result" where
  \<comment> \<open>\<open>if process_insert(buffer, writer, line_counter): ...\<close>\<close>
  "flush st =
     bind (process_insert (buffer st) st) (\<lambda>switch st1.
     if switch then switch_file st1 else (Inr (), st1))"

definition main_step :: "string \<Rightarrow> state \<Rightarrow> unit result" where
  \<comment> \<open>the body of \<open>for line in fileinput.input()\<close>\<close>
  "main_step raw st =
     (let line = strip raw in
      if is_insert line then
        (if buffer st \<noteq> [] then
           bind (flush st) (\<lambda>u st1. (Inr (), st1\<lparr>buffer := line\<rparr>))
         else (Inr (), st\<lparr>buffer := line\<rparr>))
      else if buffer st \<noteq> [] then
        (let st0 = st\<lparr>buffer := buffer st @ '' '' @ line\<rparr> in
         if endswith line '';'' then
           bind (flush st0) (\<lambda>u st1. (Inr (), st1\<lparr>buffer := []\<rparr>))
         else (Inr (), st0))
      else (Inr (), st))"

fun main_loop :: "(exn + string) list \<Rightarrow> state \<Rightarrow> unit result" where
  \<comment> \<open>reading a line gives the line (\<open>Inr\<close>) or raises (\<open>Inl\<close>)\<close>
  "main_loop [] st = (Inr (), st)"
| "main_loop (Inl e # rest) st = (Inl e, st)"
| "main_loop (Inr raw # rest) st =
     (case main_step raw st of
        (Inl e, st') \<Rightarrow> (Inl e, st')
      | (Inr u, st') \<Rightarrow> main_loop rest st')"

definition final_flush :: "state \<Rightarrow> unit result" where
  \<comment> \<open>\<open>if buffer: process_insert(buffer, writer, line_counter)\<close>, the result unused\<close>
  "final_flush st =
     (if buffer st \<noteq> [] then
        bind (process_insert (buffer st) st) (\<lambda>switch st1. (Inr (), st1))
      else (Inr (), st))"

definition initial :: "(nat \<times> exn) list \<Rightarrow> state" where
  "initial fs = \<lparr>buffer = [], file_count = 0, line_counter = 0, files = [], stderr = [],
     faults = fs, row_starts = [], calls = []\<rparr>"

definition main_body :: "(exn + string) list \<Rightarrow> state \<Rightarrow> unit result" where
  \<comment> \<open>the \<open>try\<close> block of \<open>main\<close>\<close>
  "main_body input st =
     bind (open_file st) (\<lambda>u st1.
     bind (writerow Header_call header st1) (\<lambda>u st2.
     bind (main_loop input st2) (\<lambda>u st3.
     bind (final_flush st3) (\<lambda>u st4.
     close_file st4))))"

definition main :: "(exn + string) list \<Rightarrow> (nat \<times> exn) list \<Rightarrow> nat \<times> state" where
  \<comment> \<open>the exit status of the process and the final state\<close>
  "main input fs =
     (case main_body input (initial fs) of
        (Inr u, st) \<Rightarrow> (0, st)
      | (Inl KeyboardInterrupt, st) \<Rightarrow> (0, st)
      | (Inl (Exception m), st) \<Rightarrow> (1, print_err (''Unhandled exception: '' @ m) st))"

subsection \<open>Notions used in the statements\<close>

definition row_values :: "string \<Rightarrow> string list" where
  \<comment> \<open>the row that \<open>parse_values\<close> writes for the text of one row-group\<close>
  "row_values row =
     (case result_row REQUIRED_FIELDS (findall row) of Inr r \<Rightarrow> r | Inl e \<Rightarrow> [])"

fun str_contains :: "string \<Rightarrow> string \<Rightarrow> bool" where
  \<comment> \<open>\<open>sub in s\<close>\<close>
  "str_contains [] sub \<longleftrightarrow> sub = []"
| "str_contains (c # cs) sub \<longleftrightarrow> startswith (c # cs) sub \<or> str_contains cs sub"

definition row_groups :: "string \<Rightarrow> string list" where
  \<comment> \<open>the row-groups of a statement: what \<open>parse_values\<close> loops over\<close>
  "row_groups statement = re_split (strip_chars (get_values statement) ''()'')"

definition file_with :: "nat \<Rightarrow> string list list \<Rightarrow> bool" where
  \<comment> \<open>the header row, then \<open>n\<close> rows written for row-groups\<close>
  "file_with n f \<longleftrightarrow> (\<exists>rows. f = header # rows \<and> length rows = n \<and> set rows \<subseteq> range row_values)"

definition calls_of_files :: "string list list list \<Rightarrow> output_call list" where
  \<comment> \<open>for every file in turn: it is opened, the header is written, and every further row
      is written by the call for a row-group\<close>
  "calls_of_files fs =
     concat (map (\<lambda>f. Open_call # Header_call # replicate (length f - 1) Row_call) fs)"

definition wf :: "state \<Rightarrow> bool" where
  \<comment> \<open>the invariant of the line loop, for a run whose output operations do not fail\<close>
  "wf st \<longleftrightarrow>
     faults st = [] \<and> line_counter st < LINES_PER_FILE \<and>
     (\<exists>fs f. files st = fs @ [f] \<and> length fs = file_count st \<and>
        (\<forall>g\<in>set fs. file_with LINES_PER_FILE g) \<and> file_with (line_counter st) f) \<and>
     (\<forall>c\<in>set (row_starts st). c < LINES_PER_FILE) \<and>
     calls st = calls_of_files (files st)"

definition wf_end :: "state \<Rightarrow> bool" where
  \<comment> \<open>what holds after the flush at the end of the input\<close>
  "wf_end st \<longleftrightarrow>
     faults st = [] \<and>
     (\<exists>fs f n. files st = fs @ [f] \<and> length fs = file_count st \<and>
        (\<forall>g\<in>set fs. file_with LINES_PER_FILE g) \<and> n \<le> LINES_PER_FILE \<and> file_with n f \<and>
        line_counter st = n mod LINES_PER_FILE) \<and>
     (\<forall>c\<in>set (row_starts st). c < LINES_PER_FILE) \<and>
     calls st = calls_of_files (files st)"

section \<open>Properties\<close>

subsection \<open>The field mapping\<close>

lemma result_row_eq:
  "result_row schema columns =
     Inr (map (\<lambda>(f, i). if i < length columns \<and> columns ! i \<noteq> ''NULL'' then columns ! i else []) schema)"
  by (induction schema) (auto simp: field_value_def py_index_def)

lemma result_row_values: "result_row REQUIRED_FIELDS (findall row) = Inr (row_values row)"
  by (simp add: row_values_def result_row_eq)

lemma output_op_ok: "faults st = [] \<Longrightarrow> output_op f st = (Inr (), f st)"
  by (simp add: output_op_def)

lemma append_row_snoc: "append_row r (fs @ [f]) = fs @ [f @ [r]]"
proof (induction fs)
  case Nil
  show ?case by simp
next
  case (Cons a fs)
  then show ?case by (cases fs) simp_all
qed

lemma writerow_ok:
  "faults st = [] \<Longrightarrow>
   writerow c r st = (Inr (), st\<lparr>files := append_row r (files st), calls := calls st @ [c]\<rparr>)"
  by (simp add: writerow_def output_op_ok)

lemma parse_rows_ok:
  assumes "faults st = []" and "files st = fs @ [f]" and "line_counter st < LINES_PER_FILE"
  shows "parse_rows rows st =
    (Inr (LINES_PER_FILE \<le> line_counter st + length rows),
     st\<lparr>files := fs @ [f @ map row_values (take (LINES_PER_FILE - line_counter st) rows)],
        line_counter := (if LINES_PER_FILE \<le> line_counter st + length rows then 0
                         else line_counter st + length rows),
        row_starts := row_starts st @
          [line_counter st ..< line_counter st + min (length rows) (LINES_PER_FILE - line_counter st)],
        calls := calls st @
          replicate (min (length rows) (LINES_PER_FILE - line_counter st)) Row_call\<rparr>)"
  using assms
proof (induction rows arbitrary: st f)
  case Nil
  then show ?case by simp
next
  case (Cons row rows)
  let ?st0 = "st\<lparr>row_starts := row_starts st @ [line_counter st]\<rparr>"
  let ?st2 = "?st0\<lparr>files := fs @ [f @ [row_values row]], calls := calls st @ [Row_call],
                 line_counter := line_counter st + 1\<rparr>"
  have w: "writerow Row_call (row_values row) ?st0 =
      (Inr (), ?st0\<lparr>files := fs @ [f @ [row_values row]], calls := calls st @ [Row_call]\<rparr>)"
    using Cons.prems by (simp add: writerow_ok append_row_snoc)
  show ?case
  proof (cases "LINES_PER_FILE \<le> line_counter st + 1")
    case True
    with Cons.prems have eq: "LINES_PER_FILE - line_counter st = 1" by simp
    from True w show ?thesis
      by (simp add: result_row_values eq Let_def)
  next
    case False
    obtain d where d: "LINES_PER_FILE - line_counter st = Suc d"
      using Cons.prems by (cases "LINES_PER_FILE - line_counter st") simp_all
    then have d': "LINES_PER_FILE - Suc (line_counter st) = d" by simp
    define ks where "ks = [Suc (line_counter st) ..< Suc (line_counter st) + min (length rows) d]"
    have up: "[line_counter st ..< line_counter st + min (Suc (length rows)) (Suc d)]
        = line_counter st # ks"
      unfolding ks_def by (simp add: upt_rec)
    have ih: "parse_rows rows ?st2 = (Inr (LINES_PER_FILE \<le> Suc (line_counter st) + length rows),
     ?st2\<lparr>files := fs @ [(f @ [row_values row]) @ map row_values (take d rows)],
        line_counter := (if LINES_PER_FILE \<le> Suc (line_counter st) + length rows then 0
                         else Suc (line_counter st) + length rows),
        row_starts := (row_starts st @ [line_counter st]) @ ks,
        calls := (calls st @ [Row_call]) @ replicate (min (length rows) d) Row_call\<rparr>)"
      using Cons.prems False Cons.IH [of ?st2 "f @ [row_values row]"]
      unfolding ks_def by (simp add: d')
    from False w ih show ?thesis
      unfolding parse_rows.simps length_Cons d up
      by (simp add: result_row_values Let_def)
  qed
qed

text \<open>
  C7.  For every row-group text and every field of the schema: when the field's index is at
  least the number of tokens found in the row-group, or the token at that index is the null
  marker, the value written at the field's position is the empty string.
\<close>

theorem null_or_missing_field_is_empty:
  assumes "k < length schema" and "schema ! k = (name, index)"
    and "length (finditer row) \<le> index \<or> finditer row ! index = Null"
  shows "\<exists>vs. result_row schema (findall row) = Inr vs \<and> length vs = length schema \<and> vs ! k = []"
proof -
  let ?cols = "findall row"
  let ?pick = "\<lambda>(f, i). if i < length ?cols \<and> ?cols ! i \<noteq> ''NULL'' then ?cols ! i else []"
  have "?pick (schema ! k) = []"
  proof (cases "index < length (finditer row)")
    case True
    with assms(3) have "finditer row ! index = Null" by simp
    with True have "?cols ! index = []" by (simp add: findall_def)
    with assms(2) show ?thesis by simp
  next
    case False
    with assms(2) show ?thesis by (simp add: findall_def)
  qed
  with assms(1) have "map ?pick schema ! k = []" by simp
  then show ?thesis by (simp add: result_row_eq)
qed

theorem null_or_missing_field_is_empty_witness:
  "(let row = hd (row_groups ''INSERT INTO t VALUES (1,'a','b',NULL,'c');'')
    in 12 < length REQUIRED_FIELDS \<and> REQUIRED_FIELDS ! 12 = (''PASSWORD'', 3) \<and>
       finditer row ! 3 = Null \<and>
       1 < length REQUIRED_FIELDS \<and> REQUIRED_FIELDS ! 1 = (''NAME'', 6) \<and>
       length (finditer row) \<le> 6 \<and>
       (\<exists>vs. result_row REQUIRED_FIELDS (findall row) = Inr vs \<and>
          length vs = length REQUIRED_FIELDS \<and> vs ! 12 = [] \<and> vs ! 1 = []))"
proof -
  let ?row = "hd (row_groups ''INSERT INTO t VALUES (1,'a','b',NULL,'c');'')"
  have h1: "12 < length REQUIRED_FIELDS" by code_simp
  have h2: "REQUIRED_FIELDS ! 12 = (''PASSWORD'', 3)" by code_simp
  have h3: "finditer ?row ! 3 = Null" by code_simp
  have g1: "1 < length REQUIRED_FIELDS" by code_simp
  have g2: "REQUIRED_FIELDS ! 1 = (''NAME'', 6)" by code_simp
  have g3: "length (finditer ?row) \<le> 6" by code_simp
  from null_or_missing_field_is_empty [OF h1 h2 disjI2 [OF h3]]
    null_or_missing_field_is_empty [OF g1 g2 disjI1 [OF g3]] h1 h2 h3 g1 g2 g3
  show ?thesis unfolding Let_def by auto
qed

text \<open>
  C2.  The claim: a token that is not the null marker is written as its text, the digits of
  a bare number included, so that \<open>INSERT INTO t VALUES (1,'a','b',NULL,'c');\<close> under the
  schema X:0, Y:2, Z:3 gives the row 1, b, empty.  The code writes the text of the capturing
  group, which a number does not take part in: the row is empty, b, empty, and under the
  configured fields the number 7 at index 2 (LOGIN) is written as the empty string.
\<close>

theorem digit_token_is_written_empty:
  "(let row = hd (row_groups ''INSERT INTO t VALUES (1,'a','b',NULL,'c');'')
    in finditer row = [Digits ''1'', Quoted ''a'', Quoted ''b'', Null, Quoted ''c''] \<and>
       result_row [(''X'', 0), (''Y'', 2), (''Z'', 3)] (findall row) = Inr [[], ''b'', []]) \<and>
   finditer (hd (row_groups ''INSERT INTO t VALUES (1,'a',7,NULL,'c');'')) ! 2 = Digits ''7'' \<and>
   files (snd (main [Inr ''INSERT INTO t VALUES (1,'a',7,NULL,'c');''] [])) =
     [[header, [[], [], [], [], [], ''a'', [], [], [], [], [], [], [], ''c'']]]"
  by code_simp

subsection \<open>The error branch of process_insert\<close>

lemma writerow_raise:
  "writerow c r st = (Inl e, st') \<Longrightarrow> e \<in> snd ` set (faults st) \<and> stderr st' = stderr st"
  by (auto simp: writerow_def output_op_def split: list.splits nat.splits prod.splits)

lemma writerow_return:
  "writerow c r st = (Inr u, st') \<Longrightarrow>
     snd ` set (faults st') = snd ` set (faults st) \<and> stderr st' = stderr st"
  by (auto simp: writerow_def output_op_def split: list.splits nat.splits prod.splits)

lemma parse_rows_stderr: "parse_rows rows st = (r, st') \<Longrightarrow> stderr st' = stderr st"
proof (induction rows arbitrary: st)
  case Nil
  then show ?case by simp
next
  case (Cons row rows)
  let ?st0 = "st\<lparr>row_starts := row_starts st @ [line_counter st]\<rparr>"
  obtain w st1 where w: "writerow Row_call (row_values row) ?st0 = (w, st1)" by force
  show ?case
  proof (cases w)
    case (Inl e)
    with w Cons.prems writerow_raise [of Row_call "row_values row" ?st0 e st1] show ?thesis
      by (simp add: result_row_values)
  next
    case (Inr u)
    with w writerow_return [of Row_call "row_values row" ?st0 u st1]
    have s1: "stderr st1 = stderr st" by simp
    from Inr w Cons.prems Cons.IH [of "st1\<lparr>line_counter := line_counter st1 + 1\<rparr>"] s1
    show ?thesis
      by (auto simp: result_row_values Let_def split: if_splits)
  qed
qed

lemma parse_rows_raise: "parse_rows rows st = (Inl e, st') \<Longrightarrow> e \<in> snd ` set (faults st)"
proof (induction rows arbitrary: st)
  case Nil
  then show ?case by simp
next
  case (Cons row rows)
  let ?st0 = "st\<lparr>row_starts := row_starts st @ [line_counter st]\<rparr>"
  obtain w st1 where w: "writerow Row_call (row_values row) ?st0 = (w, st1)" by force
  show ?case
  proof (cases w)
    case (Inl e')
    with w Cons.prems writerow_raise [of Row_call "row_values row" ?st0 e' st1] show ?thesis
      by (simp add: result_row_values)
  next
    case (Inr u)
    with w writerow_return [of Row_call "row_values row" ?st0 u st1]
    have s1: "snd ` set (faults st1) = snd ` set (faults st)" by simp
    from Inr w Cons.prems Cons.IH [of "st1\<lparr>line_counter := line_counter st1 + 1\<rparr>"] s1
    show ?thesis
      by (auto simp: result_row_values Let_def split: if_splits)
  qed
qed

text \<open>
  C10.  The field mapping with its bounds guard returns a row for every row-group text (the
  steps before it, \<open>get_values\<close>, \<open>re_split\<close> and \<open>findall\<close>, are functions that have no
  failing case).  Whenever \<open>process_insert\<close> prints a diagnostic, the exception it reports
  is one raised by the output writer.
\<close>

theorem extraction_never_raises:
  "(\<exists>vs. result_row REQUIRED_FIELDS (findall row) = Inr vs) \<and>
   (process_insert statement st = (r, st') \<and> stderr st' \<noteq> stderr st \<longrightarrow>
      (\<exists>m. Exception m \<in> snd ` set (faults st) \<and>
           stderr st' = stderr st @ [''Error processing statement: '' @ m]))"
proof (intro conjI impI)
  show "\<exists>vs. result_row REQUIRED_FIELDS (findall row) = Inr vs"
    by (simp add: result_row_eq)
next
  assume a: "process_insert statement st = (r, st') \<and> stderr st' \<noteq> stderr st"
  obtain p st1 where p: "parse_values (get_values statement) st = (p, st1)" by force
  then have pr: "parse_rows (re_split (strip_chars (get_values statement) ''()'')) st = (p, st1)"
    by (simp add: parse_values_def)
  have s1: "stderr st1 = stderr st" using parse_rows_stderr [OF pr] .
  show "\<exists>m. Exception m \<in> snd ` set (faults st) \<and>
           stderr st' = stderr st @ [''Error processing statement: '' @ m]"
  proof (cases p)
    case (Inr b)
    with a p s1 show ?thesis by (auto simp: process_insert_def)
  next
    case (Inl e)
    with pr have mem: "e \<in> snd ` set (faults st)" by (auto dest: parse_rows_raise)
    show ?thesis
    proof (cases e)
      case KeyboardInterrupt
      with Inl a p s1 show ?thesis by (auto simp: process_insert_def)
    next
      case (Exception m)
      with Inl a p s1 mem show ?thesis by (auto simp: process_insert_def print_err_def)
    qed
  qed
qed

theorem extraction_never_raises_witness:
  "(let st = \<lparr>buffer = [], file_count = 0, line_counter = 0, files = [[header]], stderr = [],
              faults = [(0, Exception ''disk full'')], row_starts = [],
              calls = [Open_call, Header_call]\<rparr>;
        st' = snd (process_insert ''INSERT INTO t VALUES (0,'a',1);'' st)
    in stderr st' \<noteq> stderr st \<and>
       (\<exists>m. Exception m \<in> snd ` set (faults st) \<and>
            stderr st' = stderr st @ [''Error processing statement: '' @ m]))"
proof -
  let ?st = "\<lparr>buffer = [], file_count = 0, line_counter = 0, files = [[header]], stderr = [],
              faults = [(0, Exception ''disk full'')], row_starts = [],
              calls = [Open_call, Header_call]\<rparr>"
  let ?res = "process_insert ''INSERT INTO t VALUES (0,'a',1);'' ?st"
  have h: "stderr (snd ?res) \<noteq> stderr ?st" by code_simp
  have e: "?res = (fst ?res, snd ?res)" by simp
  from extraction_never_raises [of _ "''INSERT INTO t VALUES (0,'a',1);''" ?st "fst ?res" "snd ?res"] h e
  show ?thesis unfolding Let_def by blast
qed

subsection \<open>Statements without the VALUES keyword\<close>

lemma str_partition_absent: "\<not> str_contains s sep \<Longrightarrow> str_partition s sep = (s, [], [])"
  by (induction s) auto

lemma row_groups_absent:
  assumes "\<not> str_contains statement '' VALUES ''"
  shows "re_split (strip_chars (get_values statement) ''()'') = [[]]"
  using assms
  by (simp add: get_values_def str_partition_absent strip_def rstrip_chars_def strip_chars_def
      re_split_def)

lemma row_values_empty: "row_values [] = map (\<lambda>name. []) header"
  by code_simp

text \<open>
  C9.  A statement that does not contain \<open>' VALUES '\<close>, processed while a file is open and the
  writer does not fail, writes exactly one row, every value of which is the empty string,
  and prints no diagnostic.
\<close>

theorem statement_without_values_keyword:
  assumes "\<not> str_contains statement '' VALUES ''" and "faults st = []"
    and "files st = fs @ [f]"
  shows "\<exists>switch st'. process_insert statement st = (Inr switch, st') \<and>
           files st' = fs @ [f @ [map (\<lambda>name. []) header]] \<and> stderr st' = stderr st"
proof -
  let ?st0 = "st\<lparr>row_starts := row_starts st @ [line_counter st]\<rparr>"
  have w: "writerow Row_call (row_values []) ?st0 =
      (Inr (), ?st0\<lparr>files := fs @ [f @ [row_values []]], calls := calls st @ [Row_call]\<rparr>)"
    using assms by (simp add: writerow_ok append_row_snoc)
  have "\<exists>switch st'. parse_rows [[]] st = (Inr switch, st') \<and>
           files st' = fs @ [f @ [row_values []]] \<and> stderr st' = stderr st"
    using w by (auto simp: result_row_values Let_def)
  then show ?thesis
    using assms(1)
    by (auto simp: process_insert_def parse_values_def row_groups_absent row_values_empty)
qed

theorem statement_without_values_keyword_witness:
  "(let st = \<lparr>buffer = [], file_count = 0, line_counter = 0, files = [[header]], stderr = [],
              faults = [], row_starts = [], calls = [Open_call, Header_call]\<rparr>
    in \<not> str_contains ''INSERT INTO t SELECT 'a', 1 FROM u;'' '' VALUES '' \<and>
       (\<exists>switch st'. process_insert ''INSERT INTO t SELECT 'a', 1 FROM u;'' st = (Inr switch, st') \<and>
           files st' = [] @ [[header] @ [map (\<lambda>name. []) header]] \<and> stderr st' = stderr st))"
proof -
  let ?st = "\<lparr>buffer = [], file_count = 0, line_counter = 0, files = [[header]], stderr = [],
              faults = [], row_starts = [], calls = [Open_call, Header_call]\<rparr>"
  have h1: "\<not> str_contains ''INSERT INTO t SELECT 'a', 1 FROM u;'' '' VALUES ''" by code_simp
  have h2: "faults ?st = []" by simp
  have h3: "files ?st = [] @ [[header]]" by simp
  from statement_without_values_keyword [OF h1 h2 h3] h1
  show ?thesis unfolding Let_def by blast
qed

subsection \<open>Runs whose output operations do not fail\<close>

lemma process_insert_ok:
  assumes "faults st = []" and "files st = fs @ [f]" and "line_counter st < LINES_PER_FILE"
  shows "process_insert statement st =
    (Inr (LINES_PER_FILE \<le> line_counter st + length (row_groups statement)),
     st\<lparr>files := fs @ [f @ map row_values
                   (take (LINES_PER_FILE - line_counter st) (row_groups statement))],
        line_counter := (if LINES_PER_FILE \<le> line_counter st + length (row_groups statement)
                         then 0 else line_counter st + length (row_groups statement)),
        row_starts := row_starts st @
          [line_counter st ..< line_counter st +
             min (length (row_groups statement)) (LINES_PER_FILE - line_counter st)],
        calls := calls st @
          replicate (min (length (row_groups statement)) (LINES_PER_FILE - line_counter st))
            Row_call\<rparr>)"
  unfolding process_insert_def parse_values_def row_groups_def [symmetric]
  by (simp add: parse_rows_ok [OF assms])

lemma open_file_ok:
  "faults st = [] \<Longrightarrow>
   open_file st = (Inr (), st\<lparr>files := files st @ [[]], calls := calls st @ [Open_call]\<rparr>)"
  by (simp add: open_file_def output_op_ok)

lemma close_file_ok: "faults st = [] \<Longrightarrow> close_file st = (Inr (), st)"
  by (simp add: close_file_def output_op_ok)

lemma switch_file_ok:
  "faults st = [] \<Longrightarrow>
   switch_file st =
     (Inr (), st\<lparr>file_count := file_count st + 1, files := files st @ [[header]],
                calls := calls st @ [Open_call, Header_call]\<rparr>)"
  by (simp add: switch_file_def bind_def close_file_ok open_file_ok writerow_ok append_row_snoc)

lemma flush_ok:
  assumes "faults st = []" and "files st = fs @ [f]" and "line_counter st < LINES_PER_FILE"
  shows "flush st =
    (Inr (),
     if LINES_PER_FILE \<le> line_counter st + length (row_groups (buffer st)) then
       st\<lparr>files := fs @ [f @ map row_values
                     (take (LINES_PER_FILE - line_counter st) (row_groups (buffer st))), [header]],
          line_counter := 0,
          file_count := file_count st + 1,
          row_starts := row_starts st @ [line_counter st ..< LINES_PER_FILE],
          calls := calls st @ replicate (LINES_PER_FILE - line_counter st) Row_call @
            [Open_call, Header_call]\<rparr>
     else
       st\<lparr>files := fs @ [f @ map row_values (row_groups (buffer st))],
          line_counter := line_counter st + length (row_groups (buffer st)),
          row_starts := row_starts st @
            [line_counter st ..< line_counter st + length (row_groups (buffer st))],
          calls := calls st @ replicate (length (row_groups (buffer st))) Row_call\<rparr>)"
proof (cases "LINES_PER_FILE \<le> line_counter st + length (row_groups (buffer st))")
  case True
  then have m: "min (length (row_groups (buffer st))) (LINES_PER_FILE - line_counter st)
      = LINES_PER_FILE - line_counter st" by simp
  from assms(3) have a: "line_counter st + (LINES_PER_FILE - line_counter st) = LINES_PER_FILE"
    by simp
  from True show ?thesis
    unfolding flush_def process_insert_ok [OF assms] m a
    by (simp add: bind_def switch_file_ok assms(1))
next
  case False
  then have m: "min (length (row_groups (buffer st))) (LINES_PER_FILE - line_counter st)
      = length (row_groups (buffer st))" by simp
  from False have t: "take (LINES_PER_FILE - line_counter st) (row_groups (buffer st))
      = row_groups (buffer st)" by simp
  from False show ?thesis
    unfolding flush_def process_insert_ok [OF assms] m t
    by (simp add: bind_def)
qed

lemma calls_of_files_rows:
  "f \<noteq> [] \<Longrightarrow>
   calls_of_files (fs @ [f @ rs]) = calls_of_files (fs @ [f]) @ replicate (length rs) Row_call"
  by (cases f) (simp_all add: calls_of_files_def replicate_add)

lemma calls_of_files_opened:
  "calls_of_files (fs @ [[header]]) = calls_of_files fs @ [Open_call, Header_call]"
  by (simp add: calls_of_files_def)

lemma file_with_nonempty: "file_with n f \<Longrightarrow> f \<noteq> []"
  by (auto simp: file_with_def)

lemma file_with_append:
  "file_with n f \<Longrightarrow> length rs = k \<Longrightarrow> file_with (n + k) (f @ map row_values rs)"
  by (auto simp: file_with_def)

lemma file_with_header: "file_with 0 [header]"
  by (simp add: file_with_def)

lemma wf_buffer [simp]: "wf (st\<lparr>buffer := b\<rparr>) = wf st"
  by (simp add: wf_def)

lemma flush_wf:
  assumes "wf st"
  shows "\<exists>st'. flush st = (Inr (), st') \<and> wf st' \<and> stderr st' = stderr st"
proof -
  from assms obtain fs f where f0: "faults st = []" and lc: "line_counter st < LINES_PER_FILE"
    and fl: "files st = fs @ [f]" and len: "length fs = file_count st"
    and full: "\<forall>g\<in>set fs. file_with LINES_PER_FILE g" and cur: "file_with (line_counter st) f"
    and rs: "\<forall>c\<in>set (row_starts st). c < LINES_PER_FILE"
    and cl: "calls st = calls_of_files (fs @ [f])"
    by (auto simp: wf_def)
  from cur have ne: "f \<noteq> []" by (rule file_with_nonempty)
  let ?rows = "row_groups (buffer st)"
  show ?thesis
  proof (cases "LINES_PER_FILE \<le> line_counter st + length ?rows")
    case True
    let ?f' = "f @ map row_values (take (LINES_PER_FILE - line_counter st) ?rows)"
    from True have tk: "length (take (LINES_PER_FILE - line_counter st) ?rows)
        = LINES_PER_FILE - line_counter st" by simp
    from file_with_append [OF cur tk] lc have f': "file_with LINES_PER_FILE ?f'" by simp
    let ?st' = "st\<lparr>files := fs @ [?f', [header]], line_counter := 0,
          file_count := file_count st + 1,
          row_starts := row_starts st @ [line_counter st ..< LINES_PER_FILE],
          calls := calls st @ replicate (LINES_PER_FILE - line_counter st) Row_call @
            [Open_call, Header_call]\<rparr>"
    have fl': "files ?st' = (fs @ [?f']) @ [[header]]" by simp
    have "calls_of_files ((fs @ [?f']) @ [[header]]) =
        calls_of_files (fs @ [f]) @ replicate (LINES_PER_FILE - line_counter st) Row_call @
          [Open_call, Header_call]"
      unfolding calls_of_files_opened calls_of_files_rows [OF ne] using tk by simp
    with cl fl' have cl': "calls ?st' = calls_of_files (files ?st')" by simp
    from f0 lc len full f' rs file_with_header fl' have "wf ?st'"
      unfolding wf_def
      by (intro conjI exI [of _ "fs @ [?f']"] exI [of _ "[header]"] cl') auto
    with True flush_ok [OF f0 fl lc] show ?thesis by simp
  next
    case False
    let ?f' = "f @ map row_values ?rows"
    from file_with_append [OF cur refl] have f': "file_with (line_counter st + length ?rows) ?f'" .
    let ?st' = "st\<lparr>files := fs @ [?f'],
          line_counter := line_counter st + length ?rows,
          row_starts := row_starts st @
            [line_counter st ..< line_counter st + length ?rows],
          calls := calls st @ replicate (length ?rows) Row_call\<rparr>"
    have "calls_of_files (fs @ [?f']) = calls_of_files (fs @ [f]) @ replicate (length ?rows) Row_call"
      unfolding calls_of_files_rows [OF ne] by simp
    with cl have cl': "calls ?st' = calls_of_files (files ?st')" by simp
    from False f0 lc len full f' rs have "wf ?st'"
      unfolding wf_def by (intro conjI exI [of _ fs] exI [of _ ?f'] cl') auto
    with False flush_ok [OF f0 fl lc] show ?thesis by simp
  qed
qed

lemma main_step_wf:
  assumes "wf st"
  shows "\<exists>st'. main_step raw st = (Inr (), st') \<and> wf st' \<and> stderr st' = stderr st"
proof -
  let ?st0 = "st\<lparr>buffer := buffer st @ '' '' @ strip raw\<rparr>"
  from assms have "wf ?st0" by simp
  from flush_wf [OF this] obtain s0 where s0: "flush ?st0 = (Inr (), s0)" "wf s0"
    "stderr s0 = stderr st" by auto
  from flush_wf [OF assms] obtain s1 where s1: "flush st = (Inr (), s1)" "wf s1"
    "stderr s1 = stderr st" by blast
  from assms s0 s1 show ?thesis
    by (simp add: main_step_def bind_def Let_def)
qed

lemma main_loop_wf:
  assumes "wf st"
  shows "\<exists>r st'. main_loop input st = (r, st') \<and> wf st' \<and> stderr st' = stderr st \<and>
           (r = Inr () \<or> (\<exists>e. r = Inl e \<and> Inl e \<in> set input))"
  using assms
proof (induction input arbitrary: st)
  case Nil
  then show ?case by simp
next
  case (Cons x input)
  show ?case
  proof (cases x)
    case (Inl e)
    with Cons.prems show ?thesis by simp
  next
    case (Inr raw)
    from main_step_wf [OF Cons.prems] obtain s where s: "main_step raw st = (Inr (), s)" "wf s"
      "stderr s = stderr st" by blast
    from Cons.IH [OF s(2)] Inr s(1) s(3) show ?thesis by auto
  qed
qed

lemma wf_imp_wf_end:
  assumes "wf st"
  shows "wf_end st"
proof -
  from assms obtain fs f where f0: "faults st = []" and lc: "line_counter st < LINES_PER_FILE"
    and fl: "files st = fs @ [f]" and len: "length fs = file_count st"
    and full: "\<forall>g\<in>set fs. file_with LINES_PER_FILE g" and cur: "file_with (line_counter st) f"
    and rs: "\<forall>c\<in>set (row_starts st). c < LINES_PER_FILE"
    and cl: "calls st = calls_of_files (files st)"
    by (auto simp: wf_def)
  from lc have "line_counter st \<le> LINES_PER_FILE"
    and "line_counter st = line_counter st mod LINES_PER_FILE" by simp_all
  with f0 fl len full cur rs cl show ?thesis
    unfolding wf_end_def by blast
qed

lemma final_flush_wf_end:
  assumes "wf st"
  shows "\<exists>st'. final_flush st = (Inr (), st') \<and> wf_end st' \<and> file_count st' = file_count st \<and>
           stderr st' = stderr st"
proof (cases "buffer st = []")
  case True
  with wf_imp_wf_end [OF assms] show ?thesis by (simp add: final_flush_def)
next
  case False
  from assms obtain fs f where f0: "faults st = []" and lc: "line_counter st < LINES_PER_FILE"
    and fl: "files st = fs @ [f]" and len: "length fs = file_count st"
    and full: "\<forall>g\<in>set fs. file_with LINES_PER_FILE g" and cur: "file_with (line_counter st) f"
    and rs: "\<forall>c\<in>set (row_starts st). c < LINES_PER_FILE"
    and cl: "calls st = calls_of_files (fs @ [f])"
    by (auto simp: wf_def)
  from cur have ne: "f \<noteq> []" by (rule file_with_nonempty)
  let ?rows = "row_groups (buffer st)"
  let ?k = "min (length ?rows) (LINES_PER_FILE - line_counter st)"
  let ?f' = "f @ map row_values (take (LINES_PER_FILE - line_counter st) ?rows)"
  let ?st' = "st\<lparr>files := fs @ [?f'],
        line_counter := (if LINES_PER_FILE \<le> line_counter st + length ?rows
                         then 0 else line_counter st + length ?rows),
        row_starts := row_starts st @ [line_counter st ..< line_counter st + ?k],
        calls := calls st @ replicate ?k Row_call\<rparr>"
  have tk: "length (take (LINES_PER_FILE - line_counter st) ?rows) = ?k" by simp
  from file_with_append [OF cur tk] have f': "file_with (line_counter st + ?k) ?f'" .
  have "calls_of_files (fs @ [?f']) = calls_of_files (fs @ [f]) @ replicate ?k Row_call"
    unfolding calls_of_files_rows [OF ne] using tk by simp
  with cl have cl': "calls ?st' = calls_of_files (files ?st')" by simp
  from lc have le: "line_counter st + ?k \<le> LINES_PER_FILE" by simp
  have md: "line_counter ?st' = (line_counter st + ?k) mod LINES_PER_FILE"
  proof (cases "LINES_PER_FILE \<le> line_counter st + length ?rows")
    case True
    with lc have "line_counter st + ?k = LINES_PER_FILE" by simp
    with True show ?thesis by simp
  next
    case False
    then have "?k = length ?rows" by simp
    with False show ?thesis by simp
  qed
  have fl': "files ?st' = fs @ [?f']" by simp
  have "wf_end ?st'"
    unfolding wf_end_def
  proof (intro conjI)
    show "faults ?st' = []" using f0 by simp
    show "\<exists>fs f n. files ?st' = fs @ [f] \<and> length fs = file_count ?st' \<and>
        (\<forall>g\<in>set fs. file_with LINES_PER_FILE g) \<and> n \<le> LINES_PER_FILE \<and> file_with n f \<and>
        line_counter ?st' = n mod LINES_PER_FILE"
      using fl' len full le f' md by (intro exI [of _ fs] exI [of _ ?f'] exI [of _ "line_counter st + ?k"]) simp
    show "\<forall>c\<in>set (row_starts ?st'). c < LINES_PER_FILE"
      using rs le by auto
    show "calls ?st' = calls_of_files (files ?st')" by (rule cl')
  qed
  with False process_insert_ok [OF f0 fl lc, of "buffer st"] show ?thesis
    by (simp add: final_flush_def bind_def)
qed

lemma lines_per_file_pos: "0 < LINES_PER_FILE"
  by (simp add: LINES_PER_FILE_def)

lemma main_body_start:
  "main_body input (initial []) =
     bind (main_loop input ((initial [])\<lparr>files := [[header]], calls := [Open_call, Header_call]\<rparr>))
       (\<lambda>u st3. bind (final_flush st3) (\<lambda>u st4. close_file st4))"
  by (simp add: main_body_def bind_def open_file_ok writerow_ok initial_def)

lemma wf_opened: "wf ((initial [])\<lparr>files := [[header]], calls := [Open_call, Header_call]\<rparr>)"
  unfolding wf_def
  by (intro conjI exI [of _ "[]"] exI [of _ "[header]"])
    (simp_all add: initial_def lines_per_file_pos file_with_header calls_of_files_def)

lemma main_body_wf_end:
  "\<exists>r st'. main_body input (initial []) = (r, st') \<and> wf_end st' \<and> stderr st' = [] \<and>
     (r = Inr () \<or> (\<exists>e. r = Inl e \<and> Inl e \<in> set input))"
proof -
  let ?st2 = "(initial [])\<lparr>files := [[header]], calls := [Open_call, Header_call]\<rparr>"
  note start = main_body_start [of input]
  from main_loop_wf [OF wf_opened] obtain r st3 where l: "main_loop input ?st2 = (r, st3)"
    and w3: "wf st3" and e3: "stderr st3 = stderr ?st2"
    and r: "r = Inr () \<or> (\<exists>e. r = Inl e \<and> Inl e \<in> set input)" by blast
  from e3 have e3': "stderr st3 = []" by (simp add: initial_def)
  show ?thesis
  proof (cases r)
    case (Inl e)
    with start l w3 r e3' wf_imp_wf_end [OF w3] show ?thesis by (simp add: bind_def)
  next
    case (Inr u)
    from final_flush_wf_end [OF w3] obtain st4 where f: "final_flush st3 = (Inr (), st4)"
      and w4: "wf_end st4" and e4: "stderr st4 = stderr st3" by blast
    from w4 have "faults st4 = []" by (simp add: wf_end_def)
    with start l Inr f w4 e4 e3' show ?thesis by (simp add: bind_def close_file_ok)
  qed
qed

subsection \<open>The final state of main\<close>

lemma main_files: "files (snd (main input fs)) = files (snd (main_body input (initial fs)))"
  by (auto simp: main_def print_err_def split: prod.splits sum.splits exn.splits)

lemma main_fields:
  "row_starts (snd (main input fs)) = row_starts (snd (main_body input (initial fs)))"
  "file_count (snd (main input fs)) = file_count (snd (main_body input (initial fs)))"
  "line_counter (snd (main input fs)) = line_counter (snd (main_body input (initial fs)))"
  "calls (snd (main input fs)) = calls (snd (main_body input (initial fs)))"
  by (auto simp: main_def print_err_def split: prod.splits sum.splits exn.splits)

subsection \<open>Exit status\<close>

lemma main_loop_append:
  "main_loop (xs @ ys) st =
     (case main_loop xs st of (Inl e, st') \<Rightarrow> (Inl e, st') | (Inr u, st') \<Rightarrow> main_loop ys st')"
proof (induction xs arbitrary: st)
  case Nil
  then show ?case by simp
next
  case (Cons x xs)
  then show ?case by (cases x) (auto split: prod.splits sum.splits)
qed

lemma main_loop_raises:
  assumes "wf st"
  shows "\<exists>st'. main_loop (map Inr lines @ Inl e # rest) st = (Inl e, st') \<and> wf st'"
proof -
  from main_loop_wf [OF assms, of "map Inr lines"] obtain st1 where
    "main_loop (map Inr lines) st = (Inr (), st1)" and "wf st1" by auto
  then show ?thesis by (simp add: main_loop_append)
qed

lemma main_stderr:
  "stderr (snd (main input fs)) =
     stderr (snd (main_body input (initial fs))) @
       (case fst (main_body input (initial fs)) of
          Inl (Exception m) \<Rightarrow> [''Unhandled exception: '' @ m] | _ \<Rightarrow> [])"
  by (auto simp: main_def print_err_def split: prod.splits sum.splits exn.splits)

lemma main_status:
  "fst (main input fs) =
     (case fst (main_body input (initial fs)) of
        Inr u \<Rightarrow> 0 | Inl KeyboardInterrupt \<Rightarrow> 0 | Inl (Exception m) \<Rightarrow> 1)"
  by (auto simp: main_def split: prod.splits sum.splits exn.splits)

text \<open>
  C8.  The exit status is 0 when the body of \<open>main\<close> returns and when it is left by
  \<open>KeyboardInterrupt\<close>, and 1 when it is left by another exception, whose text is then
  printed to the error stream.  With no failing output operation: input that is read to its
  end gives status 0 and prints nothing, an interrupt while reading gives status 0, and an
  exception while reading gives status 1 and the message.
\<close>

theorem exit_status:
  "fst (main input fs) =
     (case fst (main_body input (initial fs)) of
        Inr u \<Rightarrow> 0 | Inl KeyboardInterrupt \<Rightarrow> 0 | Inl (Exception m) \<Rightarrow> 1) \<and>
   stderr (snd (main input fs)) =
     stderr (snd (main_body input (initial fs))) @
       (case fst (main_body input (initial fs)) of
          Inl (Exception m) \<Rightarrow> [''Unhandled exception: '' @ m] | _ \<Rightarrow> []) \<and>
   fst (main (map Inr lines) []) = 0 \<and>
   stderr (snd (main (map Inr lines) [])) = [] \<and>
   fst (main (map Inr lines @ Inl KeyboardInterrupt # rest) []) = 0 \<and>
   fst (main (map Inr lines @ Inl (Exception msg) # rest) []) = 1 \<and>
   stderr (snd (main (map Inr lines @ Inl (Exception msg) # rest) [])) =
     [''Unhandled exception: '' @ msg]"
proof -
  let ?opened = "(initial [])\<lparr>files := [[header]], calls := [Open_call, Header_call]\<rparr>"
  note a = main_status
  have normal: "fst (main_body (map Inr lines) (initial [])) = Inr () \<and>
      stderr (snd (main_body (map Inr lines) (initial []))) = []"
    using main_body_wf_end [of "map Inr lines"] by auto
  have raised: "fst (main_body (map Inr lines @ Inl e # rest) (initial [])) = Inl e \<and>
      stderr (snd (main_body (map Inr lines @ Inl e # rest) (initial []))) = []" for e
  proof -
    from main_loop_raises [OF wf_opened, of lines e rest] obtain st' where
      l: "main_loop (map Inr lines @ Inl e # rest) ?opened = (Inl e, st')" by blast
    from main_loop_wf [OF wf_opened, of "map Inr lines @ Inl e # rest"] l
    have "stderr st' = []" by (simp add: initial_def)
    with l show ?thesis by (simp add: main_body_start bind_def)
  qed
  have b: "fst (main (map Inr lines) []) = 0" "stderr (snd (main (map Inr lines) [])) = []"
    using normal by (simp_all add: main_stderr a [of "map Inr lines" "[]"])
  have c: "fst (main (map Inr lines @ Inl KeyboardInterrupt # rest) []) = 0"
    using raised [of KeyboardInterrupt]
    by (simp add: a [of "map Inr lines @ Inl KeyboardInterrupt # rest" "[]"])
  have d: "fst (main (map Inr lines @ Inl (Exception msg) # rest) []) = 1"
    "stderr (snd (main (map Inr lines @ Inl (Exception msg) # rest) [])) =
       [''Unhandled exception: '' @ msg]"
    using raised [of "Exception msg"]
    by (simp_all add: main_stderr a [of "map Inr lines @ Inl (Exception msg) # rest" "[]"])
  from a [of input fs] main_stderr [of input fs] b c d show ?thesis by blast
qed

subsection \<open>Statements that are not well-formed\<close>

lemma split_from_nonempty: "split_from piece s \<noteq> []"
  by (induction piece s rule: split_from.induct) (auto split: option.splits)

lemma row_groups_nonempty: "row_groups statement \<noteq> []"
  by (simp add: row_groups_def re_split_def split_from_nonempty)

text \<open>
  C3, as stated, fails.  A statement with unbalanced parentheses, here two opening and no
  closing one, is written as a row and no diagnostic is printed; the statement after it is
  processed as usual.
\<close>

theorem malformed_statement_writes_rows:
  "(let st = snd (main [Inr ''INSERT INTO t VALUES ((0,'a',1'', Inr ''INSERT INTO t VALUES (0,'b',1);''] [])
    in files st = [[header,
                    [[], [], [], [], [], ''a'', [], [], [], [], [], [], [], []],
                    [[], [], [], [], [], ''b'', [], [], [], [], [], [], [], []]]] \<and>
       stderr st = [])"
  by code_simp

text \<open>
  C3, amended.  While a file is open, the row counter is below the threshold and the writer
  does not fail, processing any statement text, well-formed or not, writes at least one row
  (one for each of its row-groups, up to the threshold), prints no diagnostic and returns
  normally, leaving a state in which the next statement is processed in the same way.
\<close>

theorem statement_always_writes_rows:
  assumes "faults st = []" and "files st = fs @ [f]" and "line_counter st < LINES_PER_FILE"
  shows "\<exists>switch st' rows. process_insert statement st = (Inr switch, st') \<and>
           rows = map row_values (take (LINES_PER_FILE - line_counter st) (row_groups statement)) \<and>
           rows \<noteq> [] \<and> files st' = fs @ [f @ rows] \<and> stderr st' = stderr st \<and>
           faults st' = [] \<and> line_counter st' < LINES_PER_FILE"
proof -
  from assms(3) row_groups_nonempty [of statement]
  have "take (LINES_PER_FILE - line_counter st) (row_groups statement) \<noteq> []" by simp
  with assms show ?thesis
    by (simp add: process_insert_ok [OF assms])
qed

theorem statement_always_writes_rows_witness:
  "(let st = \<lparr>buffer = [], file_count = 0, line_counter = 0, files = [[header]], stderr = [],
              faults = [], row_starts = [], calls = [Open_call, Header_call]\<rparr>
    in faults st = [] \<and> files st = [] @ [[header]] \<and> line_counter st < LINES_PER_FILE \<and>
       (\<exists>switch st' rows. process_insert ''INSERT INTO t VALUES ((0,'a',1'' st = (Inr switch, st') \<and>
           rows = map row_values (take (LINES_PER_FILE - line_counter st)
                    (row_groups ''INSERT INTO t VALUES ((0,'a',1'')) \<and>
           rows \<noteq> [] \<and> files st' = [] @ [[header] @ rows] \<and> stderr st' = stderr st \<and>
           faults st' = [] \<and> line_counter st' < LINES_PER_FILE))"
proof -
  let ?st = "\<lparr>buffer = [], file_count = 0, line_counter = 0, files = [[header]], stderr = [],
              faults = [], row_starts = [], calls = [Open_call, Header_call]\<rparr>"
  have h1: "faults ?st = []" by simp
  have h2: "files ?st = [] @ [[header]]" by simp
  have h3: "line_counter ?st < LINES_PER_FILE" by (simp add: LINES_PER_FILE_def)
  from statement_always_writes_rows [OF h1 h2 h3, of "''INSERT INTO t VALUES ((0,'a',1''"] h1 h2 h3
  show ?thesis unfolding Let_def by blast
qed

subsection \<open>Statements on one line\<close>

text \<open>
  C4.  The claim: a buffer that ends with the terminator is flushed before another line is
  appended, also when it is the line that starts the statement.  The code tests for the
  terminator only when it appends a line.  A one-line statement stays in the buffer, the
  next line is appended to it, and the text in that line is parsed as part of the
  statement: here the quoted \<open>y\<close> of a comment line ends up in the LOGIN column.
\<close>

theorem one_line_statement_not_flushed:
  "(let opened = \<lparr>buffer = [], file_count = 0, line_counter = 0, files = [[header]],
                   stderr = [], faults = [], row_starts = [],
                   calls = [Open_call, Header_call]\<rparr>;
        line1 = ''INSERT INTO t VALUES (0,'x');'';
        line2 = ''-- for 'y' see above''
    in endswith line1 '';'' \<and>
       main_step line1 opened = (Inr (), opened\<lparr>buffer := line1\<rparr>) \<and>
       main_loop [Inr line1, Inr line2] opened = (Inr (), opened\<lparr>buffer := line1 @ '' '' @ line2\<rparr>) \<and>
       files (snd (main [Inr line1] [])) =
         [[header, [[], [], [], [], [], ''x'', [], [], [], [], [], [], [], []]]] \<and>
       files (snd (main [Inr line1, Inr line2] [])) =
         [[header, [''y'', [], [], [], [], ''x'', [], [], [], [], [], [], [], []]]])"
  by code_simp

subsection \<open>Rotation\<close>


lemma main_step_single:
  assumes f0: "faults st = []" and fl: "files st = fs @ [f]" and b: "buffer st = strip L"
    and ins: "is_insert (strip L)" and ne: "strip L \<noteq> []" and rg: "row_groups (strip L) = [g]"
    and lt: "Suc (line_counter st) < LINES_PER_FILE"
  shows "main_step L st =
    (Inr (), st\<lparr>files := fs @ [f @ [row_values g]], line_counter := Suc (line_counter st),
              row_starts := row_starts st @ [line_counter st],
              calls := calls st @ [Row_call]\<rparr>)"
proof -
  from lt have lc: "line_counter st < LINES_PER_FILE" by simp
  from rg b have rows: "row_groups (buffer st) = [g]" by simp
  have "flush st = (Inr (), st\<lparr>files := fs @ [f @ [row_values g]],
          line_counter := Suc (line_counter st),
          row_starts := row_starts st @ [line_counter st],
          calls := calls st @ [Row_call]\<rparr>)"
    unfolding flush_ok [OF f0 fl lc] rows using lt by simp
  moreover have "buffer st \<noteq> []" using b ne by simp
  ultimately show ?thesis
    using ins unfolding main_step_def Let_def b [symmetric]
    by (simp add: bind_def)
qed

lemma main_loop_replicate:
  assumes f0: "faults st = []" and fl: "files st = fs @ [f]" and b: "buffer st = strip L"
    and ins: "is_insert (strip L)" and ne: "strip L \<noteq> []" and rg: "row_groups (strip L) = [g]"
    and lt: "line_counter st + n < LINES_PER_FILE"
  shows "main_loop (map Inr (replicate n L)) st =
    (Inr (), st\<lparr>files := fs @ [f @ replicate n (row_values g)],
              line_counter := line_counter st + n,
              row_starts := row_starts st @ [line_counter st ..< line_counter st + n],
              calls := calls st @ replicate n Row_call\<rparr>)"
  using f0 fl b lt
proof (induction n arbitrary: st f)
  case 0
  then show ?case by simp
next
  case (Suc n)
  let ?st1 = "st\<lparr>files := fs @ [f @ [row_values g]], line_counter := Suc (line_counter st),
              row_starts := row_starts st @ [line_counter st],
              calls := calls st @ [Row_call]\<rparr>"
  from Suc.prems have lt1: "Suc (line_counter st) < LINES_PER_FILE" by simp
  have step: "main_step L st = (Inr (), ?st1)"
    using main_step_single [OF Suc.prems(1) Suc.prems(2) Suc.prems(3) ins ne rg lt1] .
  have ih: "main_loop (map Inr (replicate n L)) ?st1 =
    (Inr (), ?st1\<lparr>files := fs @ [(f @ [row_values g]) @ replicate n (row_values g)],
              line_counter := line_counter ?st1 + n,
              row_starts := row_starts ?st1 @ [line_counter ?st1 ..< line_counter ?st1 + n],
              calls := calls ?st1 @ replicate n Row_call\<rparr>)"
    using Suc.prems by (intro Suc.IH) simp_all
  have r: "(f @ [row_values g]) @ replicate n (row_values g) = f @ replicate (Suc n) (row_values g)"
    by simp
  have u: "(row_starts st @ [line_counter st]) @ [Suc (line_counter st) ..< Suc (line_counter st) + n]
      = row_starts st @ [line_counter st ..< line_counter st + Suc n]"
    by (simp add: upt_rec [of "line_counter st"])
  have "main_loop (map Inr (replicate (Suc n) L)) st = main_loop (map Inr (replicate n L)) ?st1"
    using step by simp
  also have "\<dots> = (Inr (), ?st1\<lparr>files := fs @ [f @ replicate (Suc n) (row_values g)],
              line_counter := line_counter st + Suc n,
              row_starts := row_starts st @ [line_counter st ..< line_counter st + Suc n],
              calls := calls st @ replicate (Suc n) Row_call\<rparr>)"
    unfolding ih r using u by (simp add: replicate_app_Cons_same)
  finally show ?case by simp
qed

lemma run_single_lines:
  assumes ins: "is_insert (strip L)" and ne: "strip L \<noteq> []"
    and rg: "row_groups (strip L) = [g]" and lt: "n < LINES_PER_FILE"
  shows "main_loop (map Inr (replicate (Suc n) L)) ((initial [])\<lparr>files := [[header]], calls := [Open_call, Header_call]\<rparr>) =
    (Inr (), (initial [])\<lparr>files := [header # replicate n (row_values g)], buffer := strip L,
                line_counter := n, row_starts := [0..<n],
                calls := Open_call # Header_call # replicate n Row_call\<rparr>)"
proof -
  let ?o = "(initial [])\<lparr>files := [[header]], calls := [Open_call, Header_call]\<rparr>"
  let ?b = "?o\<lparr>buffer := strip L\<rparr>"
  have s: "main_step L ?o = (Inr (), ?b)"
    using ins by (simp add: main_step_def initial_def)
  have "main_loop (map Inr (replicate n L)) ?b =
    (Inr (), ?b\<lparr>files := [] @ [[header] @ replicate n (row_values g)],
              line_counter := line_counter ?b + n,
              row_starts := row_starts ?b @ [line_counter ?b ..< line_counter ?b + n],
              calls := calls ?b @ replicate n Row_call\<rparr>)"
    using lt by (intro main_loop_replicate ins ne rg) (simp_all add: initial_def)
  with s show ?thesis by (simp add: initial_def)
qed

lemma statement_line:
  "is_insert (strip ''INSERT INTO t VALUES (0,'a',1);'')"
  "strip ''INSERT INTO t VALUES (0,'a',1);'' \<noteq> []"
  "row_groups (strip ''INSERT INTO t VALUES (0,'a',1);'') = [''0,'a',1'']"
  "strip ''INSERT INTO t VALUES (0,'a',1);'' = ''INSERT INTO t VALUES (0,'a',1);''"
  "row_groups ''INSERT INTO t VALUES (0,'a',1);'' = [''0,'a',1'']"
  "row_values ''0,'a',1'' = [[], [], [], [], [], ''a'', [], [], [], [], [], [], [], []]"
  by code_simp+


lemma file_with_length: "file_with n f \<Longrightarrow> length f = Suc n"
  by (auto simp: file_with_def)

lemma final_flush_ok:
  assumes "faults st = []" and "files st = fs @ [f]" and "line_counter st < LINES_PER_FILE"
  shows "final_flush st =
    (Inr (),
     if buffer st \<noteq> [] then
       st\<lparr>files := fs @ [f @ map row_values
                     (take (LINES_PER_FILE - line_counter st) (row_groups (buffer st)))],
          line_counter :=
            (if LINES_PER_FILE \<le> line_counter st + length (row_groups (buffer st))
             then 0 else line_counter st + length (row_groups (buffer st))),
          row_starts := row_starts st @
            [line_counter st ..< line_counter st +
               min (length (row_groups (buffer st))) (LINES_PER_FILE - line_counter st)],
          calls := calls st @
            replicate (min (length (row_groups (buffer st))) (LINES_PER_FILE - line_counter st))
              Row_call\<rparr>
     else st)"
  by (simp add: final_flush_def bind_def process_insert_ok [OF assms])


lemma run_past_threshold:
  fixes n :: nat
  assumes n: "LINES_PER_FILE = Suc (Suc n)"
  defines "L \<equiv> ''INSERT INTO t VALUES (0,'a',1);''"
  defines "r \<equiv> [[], [], [], [], [], ''a'', [], [], [], [], [], [], [], []]"
  shows "main_body (map Inr (replicate (Suc LINES_PER_FILE) L)) (initial []) =
    (Inr (), (initial [])\<lparr>files := [header # replicate LINES_PER_FILE r, [header, r]],
                buffer := L, line_counter := 1, file_count := 1,
                row_starts := [0..<LINES_PER_FILE] @ [0],
                calls := Open_call # Header_call # replicate LINES_PER_FILE Row_call @
                  [Open_call, Header_call, Row_call]\<rparr>)"
proof -
  define st3 where "st3 = (initial [])\<lparr>files := [header # replicate (Suc n) r], buffer := L,
                line_counter := Suc n, row_starts := [0..<Suc n],
                calls := Open_call # Header_call # replicate (Suc n) Row_call\<rparr>"
  have l: "main_loop (map Inr (replicate (Suc (Suc n)) L)) ((initial [])\<lparr>files := [[header]], calls := [Open_call, Header_call]\<rparr>)
      = (Inr (), st3)"
    using run_single_lines [OF statement_line(1-3), of "Suc n"]
    unfolding statement_line(4,6) n st3_def L_def r_def by simp
  have f0: "faults st3 = []" and fl: "files st3 = [] @ [header # replicate (Suc n) r]"
    and lc: "line_counter st3 < LINES_PER_FILE" and lcn: "line_counter st3 = Suc n"
    and b: "buffer st3 = L"
    by (simp_all add: st3_def initial_def n)
  define st4 where "st4 = st3\<lparr>files := [header # replicate (Suc (Suc n)) r, [header]],
      line_counter := 0, file_count := file_count st3 + 1,
      row_starts := row_starts st3 @ [Suc n],
      calls := calls st3 @ [Row_call, Open_call, Header_call]\<rparr>"
  have rg: "row_groups (buffer st3) = [''0,'a',1'']"
    unfolding b L_def by (rule statement_line(5))
  have rv: "row_values ''0,'a',1'' = r"
    unfolding r_def by (rule statement_line(6))
  have fsh: "flush st3 = (Inr (), st4)"
    unfolding flush_ok [OF f0 fl lc] rg lcn n st4_def
    by (simp add: rv replicate_append_same)
  have ins: "is_insert (strip L)" and sl: "strip L = L" and ne: "L \<noteq> []"
    unfolding L_def by code_simp+
  have step: "main_step L st3 = (Inr (), st4)"
    using fsh ins ne b unfolding main_step_def Let_def sl
    by (simp add: bind_def st4_def)
  have f0': "faults st4 = []" and fl': "files st4 = [header # replicate (Suc (Suc n)) r] @ [[header]]"
    and lc': "line_counter st4 < LINES_PER_FILE" and lcn': "line_counter st4 = 0"
    and b': "buffer st4 = L"
    by (simp_all add: st4_def st3_def initial_def n)
  define st5 where "st5 = st4\<lparr>files := [header # replicate (Suc (Suc n)) r, [header, r]],
      line_counter := 1, row_starts := row_starts st4 @ [0],
      calls := calls st4 @ [Row_call]\<rparr>"
  have rg': "row_groups L = [''0,'a',1'']"
    unfolding L_def by (rule statement_line(5))
  have p: "process_insert L st4 = (Inr False, st5)"
    unfolding process_insert_ok [OF f0' fl' lc'] rg' lcn' n st5_def
    by (simp add: rv)
  have loop: "main_loop (map Inr (replicate (Suc (Suc (Suc n))) L)) ((initial [])\<lparr>files := [[header]], calls := [Open_call, Header_call]\<rparr>)
      = (Inr (), st4)"
  proof -
    have "replicate (Suc (Suc (Suc n))) L = replicate (Suc (Suc n)) L @ [L]"
      by (simp add: replicate_append_same)
    then have e: "map Inr (replicate (Suc (Suc (Suc n))) L) =
        map Inr (replicate (Suc (Suc n)) L) @ [Inr L]"
      by (simp only: map_append list.map)
    show ?thesis
      unfolding e main_loop_append l using step by simp
  qed
  have "faults st5 = []" using f0' by (simp add: st5_def)
  then have "main_body (map Inr (replicate (Suc (Suc (Suc n))) L)) (initial []) = (Inr (), st5)"
    unfolding main_body_start loop
    using ne by (simp add: bind_def final_flush_def b' p close_file_ok)
  moreover have "st5 = (initial [])\<lparr>files := [header # replicate (Suc (Suc n)) r, [header, r]],
                buffer := L, line_counter := 1, file_count := 1,
                row_starts := [0..<Suc (Suc n)] @ [0],
                calls := Open_call # Header_call # replicate (Suc (Suc n)) Row_call @
                  [Open_call, Header_call, Row_call]\<rparr>"
    by (simp add: st5_def st4_def st3_def initial_def replicate_app_Cons_same)
  ultimately show ?thesis unfolding n by simp
qed


lemma two_group_line:
  "is_insert (strip ''INSERT INTO t VALUES (0,'b',2),(0,'c',3);'')"
  "strip ''INSERT INTO t VALUES (0,'b',2),(0,'c',3);'' = ''INSERT INTO t VALUES (0,'b',2),(0,'c',3);''"
  "row_groups ''INSERT INTO t VALUES (0,'b',2),(0,'c',3);'' = [''0,'b',2'', ''0,'c',3'']"
  "row_values ''0,'b',2'' = [[], [], [], [], [], ''b'', [], [], [], [], [], [], [], []]"
  "row_values ''0,'c',3'' = [[], [], [], [], [], ''c'', [], [], [], [], [], [], [], []]"
  by code_simp+

text \<open>
  C5, as stated, fails.  An input of \<open>LINES_PER_FILE\<close> one-line statements of one row-group
  each writes exactly \<open>LINES_PER_FILE\<close> rows.  The last of them is written by the flush at
  the end of the input, whose result \<open>main\<close> does not use: the counter is reset, no file is
  opened, and the run ends with one file and no rotation.
\<close>

theorem threshold_reached_by_final_flush:
  "(let st = snd (main (map Inr (replicate LINES_PER_FILE ''INSERT INTO t VALUES (0,'a',1);'')) [])
    in files st =
         [header # replicate LINES_PER_FILE [[], [], [], [], [], ''a'', [], [], [], [], [], [], [], []]] \<and>
       file_count st = 0 \<and> line_counter st = 0)"
proof -
  let ?L = "''INSERT INTO t VALUES (0,'a',1);''"
  let ?g = "''0,'a',1''"
  let ?r = "[[], [], [], [], [], ''a'', [], [], [], [], [], [], [], []] :: string list"
  obtain n where n: "LINES_PER_FILE = Suc n"
    using lines_per_file_pos by (cases LINES_PER_FILE) simp_all
  define st3 where "st3 = (initial [])\<lparr>files := [header # replicate n ?r], buffer := ?L,
                line_counter := n, row_starts := [0..<n],
                calls := Open_call # Header_call # replicate n Row_call\<rparr>"
  have l: "main_loop (map Inr (replicate (Suc n) ?L)) ((initial [])\<lparr>files := [[header]], calls := [Open_call, Header_call]\<rparr>)
      = (Inr (), st3)"
    using run_single_lines [OF statement_line(1-3), of n]
    unfolding statement_line(4,6) n st3_def by simp
  have f0: "faults st3 = []" and fl: "files st3 = [] @ [header # replicate n ?r]"
    and lc: "line_counter st3 < LINES_PER_FILE" and lcn: "line_counter st3 = n"
    and b: "buffer st3 = ?L" and fc: "file_count st3 = 0"
    by (simp_all add: st3_def initial_def n)
  define st4 where "st4 = st3\<lparr>files := [header # replicate (Suc n) ?r], line_counter := 0,
                 row_starts := row_starts st3 @ [n], calls := calls st3 @ [Row_call]\<rparr>"
  have p: "process_insert ?L st3 = (Inr True, st4)"
    unfolding process_insert_ok [OF f0 fl lc] statement_line(5) lcn n st4_def
    by (simp add: statement_line(6) replicate_append_same)
  have "faults st4 = []" using f0 by (simp add: st4_def)
  then have "main_body (map Inr (replicate (Suc n) ?L)) (initial []) = (Inr (), st4)"
    unfolding main_body_start l
    by (simp add: bind_def final_flush_def b p close_file_ok)
  then have "snd (main (map Inr (replicate LINES_PER_FILE ?L)) []) = st4"
    unfolding n by (simp add: main_def)
  then show ?thesis
    unfolding Let_def by (simp add: st4_def fc n)
qed

text \<open>
  C5, amended.  In a run whose output operations do not fail, whatever the input: the row
  counter is below \<open>LINES_PER_FILE = 10000\<close> at the start of every row-group; every file but
  the last holds exactly \<open>LINES_PER_FILE\<close> rows after its header, the last one at most that
  many, and the counter is the number of rows of the last file modulo \<open>LINES_PER_FILE\<close>.
  A flush inside the line loop opens a new file, and resets the counter to zero, exactly
  when the counter reaches \<open>LINES_PER_FILE\<close>; the flush at the end of the input resets the
  counter in the same way and never opens a file.
\<close>

theorem rotation_at_threshold:
  "(let st = snd (main input [])
    in (\<forall>c\<in>set (row_starts st). c < LINES_PER_FILE) \<and>
       length (files st) = file_count st + 1 \<and>
       (\<forall>g\<in>set (butlast (files st)). length g = LINES_PER_FILE + 1) \<and>
       length (last (files st)) \<le> LINES_PER_FILE + 1 \<and>
       line_counter st = (length (last (files st)) - 1) mod LINES_PER_FILE) \<and>
   LINES_PER_FILE = 10000 \<and>
   (faults s = [] \<and> files s = fs @ [f] \<and> line_counter s < LINES_PER_FILE \<longrightarrow>
      (let n = length (row_groups (buffer s));
           reached = (LINES_PER_FILE \<le> line_counter s + n);
           written = map row_values (take (LINES_PER_FILE - line_counter s) (row_groups (buffer s)))
       in file_count (snd (flush s)) = (if reached then file_count s + 1 else file_count s) \<and>
          line_counter (snd (flush s)) = (if reached then 0 else line_counter s + n) \<and>
          files (snd (flush s)) = (if reached then fs @ [f @ written, [header]] else fs @ [f @ written]) \<and>
          (buffer s \<noteq> [] \<longrightarrow>
             file_count (snd (final_flush s)) = file_count s \<and>
             line_counter (snd (final_flush s)) = (if reached then 0 else line_counter s + n) \<and>
             files (snd (final_flush s)) = fs @ [f @ written])))"
proof (intro conjI impI)
  from main_body_wf_end [of input] obtain r st' where
    m: "main_body input (initial []) = (r, st')" and w: "wf_end st'" by blast
  from w obtain gs g n where fl: "files st' = gs @ [g]" and len: "length gs = file_count st'"
    and full: "\<forall>h\<in>set gs. file_with LINES_PER_FILE h" and n: "n \<le> LINES_PER_FILE"
    and cur: "file_with n g" and lc: "line_counter st' = n mod LINES_PER_FILE"
    and rs: "\<forall>c\<in>set (row_starts st'). c < LINES_PER_FILE"
    by (auto simp: wf_end_def)
  have "\<forall>h\<in>set (butlast (files st')). length h = LINES_PER_FILE + 1"
    using fl full by (auto dest: file_with_length)
  moreover have "length (last (files st')) = n + 1"
    using fl cur by (simp add: file_with_length)
  ultimately show "let st = snd (main input [])
    in (\<forall>c\<in>set (row_starts st). c < LINES_PER_FILE) \<and>
       length (files st) = file_count st + 1 \<and>
       (\<forall>g\<in>set (butlast (files st)). length g = LINES_PER_FILE + 1) \<and>
       length (last (files st)) \<le> LINES_PER_FILE + 1 \<and>
       line_counter st = (length (last (files st)) - 1) mod LINES_PER_FILE"
    using m fl len n lc rs by (simp add: Let_def main_files main_fields)
next
  show "LINES_PER_FILE = 10000" by (simp add: LINES_PER_FILE_def)
next
  assume a: "faults s = [] \<and> files s = fs @ [f] \<and> line_counter s < LINES_PER_FILE"
  then have f0: "faults s = []" and fl: "files s = fs @ [f]"
    and lc: "line_counter s < LINES_PER_FILE" by simp_all
  have t: "\<not> LINES_PER_FILE \<le> line_counter s + length (row_groups (buffer s)) \<Longrightarrow>
      take (LINES_PER_FILE - line_counter s) (row_groups (buffer s)) = row_groups (buffer s)"
    by simp
  show "let n = length (row_groups (buffer s));
           reached = (LINES_PER_FILE \<le> line_counter s + n);
           written = map row_values (take (LINES_PER_FILE - line_counter s) (row_groups (buffer s)))
       in file_count (snd (flush s)) = (if reached then file_count s + 1 else file_count s) \<and>
          line_counter (snd (flush s)) = (if reached then 0 else line_counter s + n) \<and>
          files (snd (flush s)) = (if reached then fs @ [f @ written, [header]] else fs @ [f @ written]) \<and>
          (buffer s \<noteq> [] \<longrightarrow>
             file_count (snd (final_flush s)) = file_count s \<and>
             line_counter (snd (final_flush s)) = (if reached then 0 else line_counter s + n) \<and>
             files (snd (final_flush s)) = fs @ [f @ written])"
    unfolding Let_def flush_ok [OF f0 fl lc] final_flush_ok [OF f0 fl lc]
    using t by simp
qed

theorem rotation_at_threshold_witness:
  "(let st = snd (main (map Inr (replicate (Suc LINES_PER_FILE) ''INSERT INTO t VALUES (0,'a',1);'')) []);
        r = [[], [], [], [], [], ''a'', [], [], [], [], [], [], [], []];
        s = (initial [])\<lparr>files := [[header]], buffer := ''INSERT INTO t VALUES (0,'a',1);''\<rparr>
    in files st = [header # replicate LINES_PER_FILE r, [header, r]] \<and>
       file_count st = 1 \<and> line_counter st = 1 \<and>
       0 \<in> set (row_starts st) \<and> 0 < LINES_PER_FILE \<and>
       hd (files st) \<in> set (butlast (files st)) \<and>
       length (hd (files st)) = LINES_PER_FILE + 1 \<and>
       faults s = [] \<and> files s = [] @ [[header]] \<and> line_counter s < LINES_PER_FILE \<and>
       buffer s \<noteq> [] \<and>
       files (snd (flush s)) = [[header, r]] \<and> line_counter (snd (flush s)) = 1 \<and>
       file_count (snd (final_flush s)) = 0)"
proof -
  let ?L = "''INSERT INTO t VALUES (0,'a',1);''"
  let ?r = "[[], [], [], [], [], ''a'', [], [], [], [], [], [], [], []] :: string list"
  let ?input = "map Inr (replicate (Suc LINES_PER_FILE) ?L)"
  let ?st = "snd (main ?input [])"
  let ?s = "(initial [])\<lparr>files := [[header]], buffer := ?L\<rparr>"
  obtain n where n: "LINES_PER_FILE = Suc (Suc n)"
    by (simp add: LINES_PER_FILE_def numeral_eq_Suc)
  from run_past_threshold [OF n]
  have st: "?st = (initial [])\<lparr>files := [header # replicate LINES_PER_FILE ?r, [header, ?r]],
                buffer := ?L, line_counter := 1, file_count := 1,
                row_starts := [0..<LINES_PER_FILE] @ [0],
                calls := Open_call # Header_call # replicate LINES_PER_FILE Row_call @
                  [Open_call, Header_call, Row_call]\<rparr>"
    by (simp add: main_def)
  then have fs: "files ?st = [header # replicate LINES_PER_FILE ?r, [header, ?r]]"
    and fc: "file_count ?st = 1" and lc: "line_counter ?st = 1"
    and rs: "0 \<in> set (row_starts ?st)"
    by simp_all
  from fs have mem: "hd (files ?st) \<in> set (butlast (files ?st))" by simp
  have h: "faults ?s = [] \<and> files ?s = [] @ [[header]] \<and> line_counter ?s < LINES_PER_FILE"
    by (simp add: initial_def lines_per_file_pos)
  have ne: "buffer ?s \<noteq> []" by simp
  have rg: "row_groups (buffer ?s) = [''0,'a',1'']"
    using statement_line(5) by simp
  note inst = rotation_at_threshold [of ?input ?s "[]" "[header]"]
  from inst mem have len: "length (hd (files ?st)) = LINES_PER_FILE + 1"
    unfolding Let_def by blast
  from inst h have fl: "files (snd (flush ?s)) = [[header, ?r]]"
    and fl2: "line_counter (snd (flush ?s)) = 1"
    unfolding Let_def rg n by (simp_all add: statement_line(6) initial_def)
  from inst h ne have ff: "file_count (snd (final_flush ?s)) = 0"
    unfolding Let_def by (simp add: initial_def)
  from fs fc lc rs mem len h ne fl fl2 ff lines_per_file_pos show ?thesis
    unfolding Let_def by blast
qed

text \<open>
  C1.  The claim: a statement with N row-groups writes N rows, also when a rotation falls
  between its row-groups.  The loop of \<open>parse_values\<close> returns as soon as the counter
  reaches \<open>LINES_PER_FILE\<close>, so the row-groups after that one are never processed.  After
  \<open>LINES_PER_FILE - 1\<close> rows, a statement with two row-groups writes the first (b) and
  loses the second (c).
\<close>

theorem row_groups_after_threshold_are_dropped:
  "(let line = ''INSERT INTO t VALUES (0,'a',1);'';
        last_line = ''INSERT INTO t VALUES (0,'b',2),(0,'c',3);'';
        st = snd (main (map Inr (replicate (LINES_PER_FILE - 1) line @ [last_line])) [])
    in map row_values (row_groups last_line) =
         [[[], [], [], [], [], ''b'', [], [], [], [], [], [], [], []],
          [[], [], [], [], [], ''c'', [], [], [], [], [], [], [], []]] \<and>
       files st =
         [header # replicate (LINES_PER_FILE - 1) [[], [], [], [], [], ''a'', [], [], [], [], [], [], [], []]
            @ [[[], [], [], [], [], ''b'', [], [], [], [], [], [], [], []]]] \<and>
       stderr st = [])"
proof -
  let ?L = "''INSERT INTO t VALUES (0,'a',1);''"
  let ?L2 = "''INSERT INTO t VALUES (0,'b',2),(0,'c',3);''"
  let ?r = "[[], [], [], [], [], ''a'', [], [], [], [], [], [], [], []] :: string list"
  let ?rb = "[[], [], [], [], [], ''b'', [], [], [], [], [], [], [], []] :: string list"
  obtain n where n: "LINES_PER_FILE = Suc (Suc n)"
    by (simp add: LINES_PER_FILE_def numeral_eq_Suc)
  define st3 where "st3 = (initial [])\<lparr>files := [header # replicate n ?r], buffer := ?L,
                line_counter := n, row_starts := [0..<n],
                calls := Open_call # Header_call # replicate n Row_call\<rparr>"
  have l: "main_loop (map Inr (replicate (Suc n) ?L)) ((initial [])\<lparr>files := [[header]], calls := [Open_call, Header_call]\<rparr>)
      = (Inr (), st3)"
    using run_single_lines [OF statement_line(1-3), of n]
    unfolding statement_line(4,6) n st3_def by simp
  have f0: "faults st3 = []" and fl: "files st3 = [] @ [header # replicate n ?r]"
    and lc: "line_counter st3 < LINES_PER_FILE" and lcn: "line_counter st3 = n"
    and b: "buffer st3 = ?L" and e3: "stderr st3 = []"
    by (simp_all add: st3_def initial_def n)
  define st4 where "st4 = st3\<lparr>files := [header # replicate (Suc n) ?r],
      line_counter := Suc n, row_starts := row_starts st3 @ [n],
      calls := calls st3 @ [Row_call], buffer := ?L2\<rparr>"
  have rg: "row_groups (buffer st3) = [''0,'a',1'']"
    unfolding b by (rule statement_line(5))
  have fsh: "flush st3 = (Inr (), st3\<lparr>files := [header # replicate (Suc n) ?r],
      line_counter := Suc n, row_starts := row_starts st3 @ [n],
      calls := calls st3 @ [Row_call]\<rparr>)"
    unfolding flush_ok [OF f0 fl lc] rg lcn n
    by (simp add: statement_line(6) replicate_append_same)
  have step: "main_step ?L2 st3 = (Inr (), st4)"
    using fsh two_group_line(1) b unfolding main_step_def Let_def two_group_line(2)
    by (simp add: bind_def st4_def)
  have f0': "faults st4 = []" and fl': "files st4 = [] @ [header # replicate (Suc n) ?r]"
    and lc': "line_counter st4 < LINES_PER_FILE" and lcn': "line_counter st4 = Suc n"
    and b': "buffer st4 = ?L2" and e4: "stderr st4 = []"
    by (simp_all add: st4_def st3_def initial_def n)
  define st5 where "st5 = st4\<lparr>files := [header # replicate (Suc n) ?r @ [?rb]],
      line_counter := 0, row_starts := row_starts st4 @ [Suc n],
      calls := calls st4 @ [Row_call]\<rparr>"
  have p: "process_insert ?L2 st4 = (Inr True, st5)"
    unfolding process_insert_ok [OF f0' fl' lc'] two_group_line(3) lcn' n st5_def
    by (simp add: two_group_line(4))
  have loop: "main_loop (map Inr (replicate (Suc n) ?L @ [?L2])) ((initial [])\<lparr>files := [[header]], calls := [Open_call, Header_call]\<rparr>)
      = (Inr (), st4)"
  proof -
    have e: "map Inr (replicate (Suc n) ?L @ [?L2]) = map Inr (replicate (Suc n) ?L) @ [Inr ?L2]"
      by (simp only: map_append list.map)
    show ?thesis
      unfolding e main_loop_append l using step by simp
  qed
  have "faults st5 = []" using f0' by (simp add: st5_def)
  then have "main_body (map Inr (replicate (Suc n) ?L @ [?L2])) (initial []) = (Inr (), st5)"
    unfolding main_body_start loop
    by (simp add: bind_def final_flush_def b' p close_file_ok)
  then have "snd (main (map Inr (replicate (LINES_PER_FILE - 1) ?L @ [?L2])) []) = st5"
    unfolding n by (simp add: main_def)
  moreover have "files st5 = [header # replicate (LINES_PER_FILE - 1) ?r @ [?rb]]"
    and "stderr st5 = []"
    using e4 by (simp_all add: st5_def n)
  ultimately show ?thesis
    unfolding Let_def two_group_line(3) by (simp add: two_group_line(4,5))
qed

subsection \<open>Header rows\<close>



end
